theory Spec2Isabelle
  imports Complex_Main "HOL-Library.Word"
begin

section \<open>Bytes, exceptions and the \<open>struct\<close> helpers\<close>

text \<open>
  A Python \<open>bytes\<close> object is a list of 8-bit words; indexing it gives a Python int,
  which is the byte read as a natural number. The exceptions the decoder can raise are
  values of \<open>error\<close>: \<open>struct.error\<close> (a slice of the wrong size handed to
  \<open>struct.unpack\<close>, or a value that does not fit \<open>struct.pack\<close>), \<open>IndexError\<close>
  (an index past the end) and \<open>ValueError\<close> (a timestamp that \<open>datetime\<close> refuses).
\<close>

type_synonym byte = "8 word"
type_synonym bytes = "byte list"

datatype error = StructError | IndexError | ValueError

definition ebind :: "error + 'a \<Rightarrow> ('a \<Rightarrow> error + 'b) \<Rightarrow> error + 'b" where
  "ebind m f = (case m of Inl e \<Rightarrow> Inl e | Inr v \<Rightarrow> f v)"

text \<open>\<open>data[i]\<close> for a non-negative index.\<close>

definition index :: "bytes \<Rightarrow> nat \<Rightarrow> error + nat" where
  "index data i = (if i < length data then Inr (unat (data ! i)) else Inl IndexError)"

text \<open>\<open>data[i:j]\<close> for \<open>0 \<le> i \<le> j\<close>: a slice never raises, it is cut at the end.\<close>

definition py_slice :: "bytes \<Rightarrow> nat \<Rightarrow> nat \<Rightarrow> bytes" where
  "py_slice data i j = take (j - i) (drop i data)"

definition be_nat :: "bytes \<Rightarrow> nat" where
  "be_nat bs = foldl (\<lambda>a b. a * 256 + unat b) 0 bs"

text \<open>
  \<open>struct.unpack('!B' | '!H' | '!I' | '!Q', s)[0]\<close> with \<open>w\<close> the width in bytes, and
  \<open>struct.unpack('!h' | '!i', s)[0]\<close>, the two's complement reading.
\<close>

definition unpack_u :: "nat \<Rightarrow> bytes \<Rightarrow> error + nat" where
  "unpack_u w s = (if length s = w then Inr (be_nat s) else Inl StructError)"

definition unpack_s :: "nat \<Rightarrow> bytes \<Rightarrow> error + int" where
  "unpack_s w s =
     (if length s = w then
        Inr (let v = int (be_nat s) in if 2 ^ (8 * w - 1) \<le> v then v - 2 ^ (8 * w) else v)
      else Inl StructError)"

text \<open>\<open>struct.pack('!B', v)\<close> and \<open>struct.pack('!I', v)\<close> for a non-negative \<open>v\<close>.\<close>

definition pack_B :: "nat \<Rightarrow> error + bytes" where
  "pack_B v = (if v < 2 ^ 8 then Inr [word_of_nat v] else Inl StructError)"

definition pack_I :: "nat \<Rightarrow> error + bytes" where
  "pack_I v =
     (if v < 2 ^ 32 then
        Inr [word_of_nat (v div 2 ^ 24), word_of_nat (v div 2 ^ 16),
             word_of_nat (v div 2 ^ 8), word_of_nat v]
      else Inl StructError)"

section \<open>The socket and \<open>receive_all\<close>\<close>

text \<open>
  The device's side of the connection is the list of what the successive \<open>recv\<close> calls
  will meet: a chunk of bytes that has arrived, or an idle period longer than the
  socket's timeout. When the list is exhausted the peer has closed, and \<open>recv\<close>
  returns the empty bytes object. \<open>recv(k)\<close> hands out at most \<open>k\<close> bytes of the chunk
  at the head and leaves the rest of it for the next call.
\<close>

datatype event = Chunk bytes | Timeout

datatype recv_result = Received bytes | TimedOut

fun recv :: "event list \<Rightarrow> nat \<Rightarrow> recv_result \<times> event list" where
  "recv [] k = (Received [], [])"
| "recv (Timeout # es) k = (TimedOut, es)"
| "recv (Chunk bs # es) k =
     (Received (take k bs), if length bs \<le> k then es else Chunk (drop k bs) # es)"

text \<open>
  The loop of \<open>receive_all\<close>, with \<open>data\<close> the bytes accumulated so far. A
  \<open>socket.timeout\<close> is caught inside the loop and becomes \<open>None\<close>.
\<close>

function receive_loop :: "nat \<Rightarrow> bytes \<Rightarrow> event list \<Rightarrow> bytes option \<times> event list" where
  "receive_loop n data es =
     (if length data < n then
        (case recv es (n - length data) of
           (TimedOut, es') \<Rightarrow> (None, es')
         | (Received more, es') \<Rightarrow>
             if more = [] then (None, es') else receive_loop n (data @ more) es')
      else (Some data, es))"
  by pat_completeness auto
termination
  by (relation "measure (\<lambda>(n, data, es). n - length data)") (auto simp: neq_Nil_conv)

definition receive_all :: "event list \<Rightarrow> nat \<Rightarrow> bytes option \<times> event list" where
  "receive_all sock n = receive_loop n [] sock"

section \<open>The codec decoder\<close>

text \<open>
  The decoded dictionaries are records. Longitude and latitude are the quotient of the
  signed reading by 10000000, taken in the reals: Python's float is the nearest double
  to that quotient. The io dictionary is a map from the io id to its value.
\<close>

record gps_element =
  longitude :: real
  latitude :: real
  altitude :: int
  angle :: nat
  satellites :: nat
  speed :: nat

text \<open>
  The record's \<open>timestamp\<close> is kept as the milliseconds read from the wire; the source
  stores their rendering by \<open>datetime.isoformat\<close>.
\<close>

record avl_record =
  timestamp :: nat
  priority :: nat
  gps :: gps_element
  io :: "nat \<rightharpoonup> nat"

definition parse_gps_element :: "bytes \<Rightarrow> error + gps_element" where
  "parse_gps_element data =
     ebind (unpack_s 4 (py_slice data 0 4)) (\<lambda>lon.
     ebind (unpack_s 4 (py_slice data 4 8)) (\<lambda>lat.
     ebind (unpack_s 2 (py_slice data 8 10)) (\<lambda>alt.
     ebind (unpack_u 2 (py_slice data 10 12)) (\<lambda>ang.
     ebind (index data 12) (\<lambda>sat.
     ebind (unpack_u 2 (py_slice data 13 15)) (\<lambda>spd.
       Inr \<lparr>longitude = real_of_int lon / 10000000,
            latitude = real_of_int lat / 10000000,
            altitude = alt, angle = ang, satellites = sat, speed = spd\<rparr>))))))"

text \<open>
  One bucket of the Codec8 io element: \<open>n\<close> entries of an id byte and a value of \<open>w\<close>
  bytes. The source writes the loop four times, for \<open>w\<close> = 1, 2, 4 and 8; the 1-byte
  value is read by indexing, the wider ones by \<open>struct.unpack\<close> on a slice.
\<close>

definition io_value :: "nat \<Rightarrow> bytes \<Rightarrow> nat \<Rightarrow> error + nat" where
  "io_value w data offset =
     (if w = 1 then index data offset else unpack_u w (py_slice data offset (offset + w)))"

fun io_bucket :: "nat \<Rightarrow> nat \<Rightarrow> bytes \<Rightarrow> nat \<Rightarrow> (nat \<rightharpoonup> nat) \<Rightarrow> error + ((nat \<rightharpoonup> nat) \<times> nat)" where
  "io_bucket w 0 data offset io_element = Inr (io_element, offset)"
| "io_bucket w (Suc n) data offset io_element =
     ebind (index data offset) (\<lambda>io_id.
     ebind (io_value w data (offset + 1)) (\<lambda>v.
       io_bucket w n data (offset + 1 + w) (io_element(io_id \<mapsto> v))))"

text \<open>The loop over the properties of the Codec8 Extended io element.\<close>

fun io_props :: "nat \<Rightarrow> bytes \<Rightarrow> nat \<Rightarrow> (nat \<rightharpoonup> nat) \<Rightarrow> error + ((nat \<rightharpoonup> nat) \<times> nat)" where
  "io_props 0 data offset io_element = Inr (io_element, offset)"
| "io_props (Suc n) data offset io_element =
     ebind (index data offset) (\<lambda>io_id.
     ebind (index data (offset + 1)) (\<lambda>io_value_length.
       if io_value_length = 1 then
         ebind (index data (offset + 2)) (\<lambda>v.
           io_props n data (offset + 3) (io_element(io_id \<mapsto> v)))
       else if io_value_length = 2 then
         ebind (unpack_u 2 (py_slice data (offset + 2) (offset + 4))) (\<lambda>v.
           io_props n data (offset + 4) (io_element(io_id \<mapsto> v)))
       else if io_value_length = 4 then
         ebind (unpack_u 4 (py_slice data (offset + 2) (offset + 6))) (\<lambda>v.
           io_props n data (offset + 6) (io_element(io_id \<mapsto> v)))
       else if io_value_length = 8 then
         ebind (unpack_u 8 (py_slice data (offset + 2) (offset + 10))) (\<lambda>v.
           io_props n data (offset + 10) (io_element(io_id \<mapsto> v)))
       else io_props n data (offset + 2 + io_value_length) io_element))"

definition parse_io_element :: "bytes \<Rightarrow> nat \<Rightarrow> error + ((nat \<rightharpoonup> nat) \<times> nat)" where
  "parse_io_element data codec_id =
     (if codec_id = 0x08 then
        ebind (index data 0) (\<lambda>event_id.
        ebind (index data 1) (\<lambda>element_count.
        ebind (index data 2) (\<lambda>n1.
        ebind (io_bucket 1 n1 data 3 Map.empty) (\<lambda>(io1, offset1).
        ebind (index data offset1) (\<lambda>n2.
        ebind (io_bucket 2 n2 data (offset1 + 1) io1) (\<lambda>(io2, offset2).
        ebind (index data offset2) (\<lambda>n4.
        ebind (io_bucket 4 n4 data (offset2 + 1) io2) (\<lambda>(io4, offset4).
        ebind (index data offset4) (\<lambda>n8.
          io_bucket 8 n8 data (offset4 + 1) io4)))))))))
      else if codec_id = 0x8E then
        ebind (index data 0) (\<lambda>event_id.
        ebind (index data 1) (\<lambda>properties_count.
          io_props properties_count data 2 Map.empty))
      else Inr (Map.empty, 0))"

text \<open>
  \<open>datetime.utcfromtimestamp(timestamp / 1000)\<close> raises for an instant after the year
  9999, that is from 253402300800 seconds on; the milliseconds are unsigned, so there is
  no lower limit to meet.
\<close>

definition utcfromtimestamp_ms :: "nat \<Rightarrow> error + nat" where
  "utcfromtimestamp_ms ms = (if ms < 253402300800000 then Inr ms else Inl ValueError)"

text \<open>
  \<open>parse_record\<close> returns the record and the bytes it consumed. Its caller tests the
  record against \<open>None\<close>, so the record is an option here.
\<close>

definition parse_record :: "bytes \<Rightarrow> nat \<Rightarrow> error + (avl_record option \<times> nat)" where
  "parse_record data codec_id =
     ebind (unpack_u 8 (py_slice data 0 8)) (\<lambda>ms.
     ebind (utcfromtimestamp_ms ms) (\<lambda>ts.
     ebind (index data 8) (\<lambda>prio.
     ebind (parse_gps_element (py_slice data 9 24)) (\<lambda>gps_element.
     ebind (parse_io_element (drop 24 data) codec_id) (\<lambda>(io_element, io_size).
       Inr (Some \<lparr>timestamp = ts, priority = prio, gps = gps_element, io = io_element\<rparr>,
            24 + io_size))))))"

text \<open>The loop over the records of \<open>process_avl_data\<close>, \<open>n\<close> iterations still to run.\<close>

fun records_loop :: "nat \<Rightarrow> bytes \<Rightarrow> nat \<Rightarrow> nat \<Rightarrow> avl_record list \<Rightarrow> error + (avl_record list option \<times> nat)" where
  "records_loop 0 data codec_id offset records = Inr (Some records, codec_id)"
| "records_loop (Suc n) data codec_id offset records =
     ebind (parse_record (drop offset data) codec_id) (\<lambda>(record, size).
       case record of
         None \<Rightarrow> Inr (None, codec_id)
       | Some r \<Rightarrow> records_loop n data codec_id (offset + size) (records @ [r]))"

definition process_avl_data :: "bytes \<Rightarrow> error + (avl_record list option \<times> nat)" where
  "process_avl_data data =
     ebind (index data 0) (\<lambda>codec_id.
       if codec_id = 0x08 then
         ebind (index data 1) (\<lambda>record_count. records_loop record_count data codec_id 2 [])
       else if codec_id = 0x8E then
         ebind (unpack_u 2 (py_slice data 1 3)) (\<lambda>record_count.
           records_loop record_count data codec_id 3 [])
       else Inr (None, codec_id))"

section \<open>The session: \<open>handle_client\<close>\<close>

text \<open>
  The state of one connection: what the device will still send, what the server has
  sent (one entry for each call of \<open>send\<close>), and the records handed to the sink.
  \<open>outcome\<close> is the way the handler leaves its \<open>try\<close> block: one of the five
  \<open>return\<close> and \<open>break\<close> statements, or an exception, which the handler catches
  before it closes the socket.
\<close>

record conn =
  incoming :: "event list"
  sent :: "bytes list"
  sunk :: "avl_record list"

datatype outcome =
  IncompletePreamble | IncompleteIMEI | NoDataLength | IncompleteAVL | FailedProcess
  | Raised error

definition send :: "conn \<Rightarrow> bytes \<Rightarrow> conn" where
  "send c b = c\<lparr>sent := sent c @ [b]\<rparr>"

text \<open>
  Steps 1 and 2 of the handler. \<open>decode\<close> stands for
  \<open>bytes.decode('utf-8', errors='ignore')\<close>, which returns a string for every bytes
  object. The test \<open>not x or len(x) < n\<close> holds for \<open>None\<close>, for the empty bytes object
  and for a short one.
\<close>

definition handshake :: "(bytes \<Rightarrow> 's) \<Rightarrow> conn \<Rightarrow> (outcome + 's) \<times> conn" where
  "handshake decode c =
     (case receive_all (incoming c) 2 of (preamble, es1) \<Rightarrow>
        (case preamble of
           None \<Rightarrow> (Inl IncompletePreamble, c\<lparr>incoming := es1\<rparr>)
         | Some p \<Rightarrow>
             if p = [] \<or> length p < 2 then (Inl IncompletePreamble, c\<lparr>incoming := es1\<rparr>)
             else
               (case index p 1 of
                  Inl e \<Rightarrow> (Inl (Raised e), c\<lparr>incoming := es1\<rparr>)
                | Inr imei_length \<Rightarrow>
                    (case receive_all es1 imei_length of (imei_data, es2) \<Rightarrow>
                       (case imei_data of
                          None \<Rightarrow> (Inl IncompleteIMEI, c\<lparr>incoming := es2\<rparr>)
                        | Some d \<Rightarrow>
                            if d = [] \<or> length d < imei_length
                            then (Inl IncompleteIMEI, c\<lparr>incoming := es2\<rparr>)
                            else
                              (case pack_B 0x01 of
                                 Inl e \<Rightarrow> (Inl (Raised e), c\<lparr>incoming := es2\<rparr>)
                               | Inr ack \<Rightarrow>
                                   (Inr (decode d), send (c\<lparr>incoming := es2\<rparr>) ack)))))))"

text \<open>The size of what is still to come, which every successful read makes smaller.\<close>

fun pending :: "event list \<Rightarrow> nat" where
  "pending [] = 0"
| "pending (Chunk bs # es) = Suc (length bs + pending es)"
| "pending (Timeout # es) = Suc (pending es)"

text \<open>Step 3 to 5: the loop over the frames.\<close>

function avl_loop :: "conn \<Rightarrow> outcome \<times> conn" where
  "avl_loop c =
     (case receive_all (incoming c) 4 of (data_length_bytes, es1) \<Rightarrow>
        (case data_length_bytes of
           None \<Rightarrow> (NoDataLength, c\<lparr>incoming := es1\<rparr>)
         | Some lb \<Rightarrow>
             if lb = [] \<or> length lb < 4 then (NoDataLength, c\<lparr>incoming := es1\<rparr>)
             else
               (case unpack_u 4 lb of
                  Inl e \<Rightarrow> (Raised e, c\<lparr>incoming := es1\<rparr>)
                | Inr data_length \<Rightarrow>
                    if data_length = 0 then avl_loop (c\<lparr>incoming := es1\<rparr>)
                    else
                      (case receive_all es1 data_length of (data, es2) \<Rightarrow>
                         (case data of
                            None \<Rightarrow> (IncompleteAVL, c\<lparr>incoming := es2\<rparr>)
                          | Some d \<Rightarrow>
                              if d = [] \<or> length d < data_length
                              then (IncompleteAVL, c\<lparr>incoming := es2\<rparr>)
                              else
                                (case process_avl_data d of
                                   Inl e \<Rightarrow> (Raised e, c\<lparr>incoming := es2\<rparr>)
                                 | Inr (records, codec_id) \<Rightarrow>
                                     (case records of
                                        None \<Rightarrow> (FailedProcess, c\<lparr>incoming := es2\<rparr>)
                                      | Some rs \<Rightarrow>
                                          (case pack_I (length rs) of
                                             Inl e \<Rightarrow>
                                               (Raised e,
                                                c\<lparr>incoming := es2, sunk := sunk c @ rs\<rparr>)
                                           | Inr response \<Rightarrow>
                                               avl_loop
                                                 (send (c\<lparr>incoming := es2, sunk := sunk c @ rs\<rparr>)
                                                    response)))))))))"
  by pat_completeness auto
termination
proof -
  have step: "pending es' + length d \<le> pending es + length data"
    if "receive_loop n data es = (Some d, es')" for n data es d es'
    using that
  proof (induction n data es rule: receive_loop.induct)
    case (1 n data es)
    show ?case
    proof (cases "length data < n")
      case False
      with "1.prems" show ?thesis by simp
    next
      case True
      show ?thesis
      proof (cases es)
        case Nil
        with True "1.prems" show ?thesis by simp
      next
        case (Cons e rest)
        show ?thesis
        proof (cases e)
          case Timeout
          with Cons True "1.prems" show ?thesis by simp
        next
          case (Chunk bs)
          let ?k = "n - length data"
          let ?es1 = "if length bs \<le> ?k then rest else Chunk (drop ?k bs) # rest"
          have rv: "recv es ?k = (Received (take ?k bs), ?es1)"
            using Cons Chunk by simp
          show ?thesis
          proof (cases "take ?k bs = []")
            case True
            with rv \<open>length data < n\<close> "1.prems" show ?thesis by simp
          next
            case False
            with rv \<open>length data < n\<close> "1.prems"
            have "receive_loop n (data @ take ?k bs) ?es1 = (Some d, es')" by simp
            with "1.IH" [OF \<open>length data < n\<close> rv [symmetric] refl False]
            have "pending es' + length d \<le> pending ?es1 + length (data @ take ?k bs)" .
            moreover have "pending ?es1 + length (take ?k bs) \<le> pending es"
              using Cons Chunk by (auto simp: min_def)
            ultimately show ?thesis by simp
          qed
        qed
      qed
    qed
  qed
  have shrink: "pending es' < pending es"
    if "receive_all es n = (Some d, es')" "d \<noteq> []" for n es d es'
    using step [of n "[]" es d es'] that by (cases d) (auto simp: receive_all_def)
  have keep: "pending es' \<le> pending es"
    if "receive_all es n = (Some d, es')" for n es d es'
    using step [of n "[]" es d es'] that by (auto simp: receive_all_def)
  show ?thesis
  proof (relation "measure (\<lambda>c. pending (incoming c))")
    show "wf (measure (\<lambda>c. pending (incoming c)))" by simp
  next
    fix c :: conn and x y x2 x2a
    assume "(x, y) = receive_all (incoming c) 4" "x = Some x2"
      "\<not> (x2 = [] \<or> length x2 < 4)"
    then show "(c\<lparr>incoming := y\<rparr>, c) \<in> measure (\<lambda>c. pending (incoming c))"
      using shrink [of "incoming c" 4 x2 y] by simp
  next
    fix c :: conn and x y x2 x2a xa ya x2b
    fix x2c :: "avl_record list option \<times> nat"
    fix xb yb x2d x2e
    assume a: "(x, y) = receive_all (incoming c) 4" "x = Some x2"
      "\<not> (x2 = [] \<or> length x2 < 4)"
      and b: "(xa, ya) = receive_all y x2a" "xa = Some x2b"
    show "(send (c\<lparr>incoming := ya, sunk := sunk c @ x2d\<rparr>) x2e, c)
            \<in> measure (\<lambda>c. pending (incoming c))"
      using shrink [of "incoming c" 4 x2 y] keep [of y x2a x2b ya] a b
      by (simp add: send_def)
  qed
qed

text \<open>
  The handler: handshake, then the loop. It returns how the session ended, the identity
  once the handshake has succeeded, and the final state of the connection.
\<close>

definition handle_client :: "(bytes \<Rightarrow> 's) \<Rightarrow> conn \<Rightarrow> outcome \<times> 's option \<times> conn" where
  "handle_client decode c =
     (case handshake decode c of
        (Inl out, c1) \<Rightarrow> (out, None, c1)
      | (Inr imei, c1) \<Rightarrow> (case avl_loop c1 of (out, c2) \<Rightarrow> (out, Some imei, c2)))"

section \<open>What a read sees of the stream\<close>

text \<open>
  \<open>avail es\<close> is what has arrived before the first interruption: the bytes of the
  chunks in arrival order, up to the first timeout, the first empty read or the end of
  the stream. \<open>after k es\<close> is the stream once a read that asked for \<open>k\<close> more bytes is
  over.
\<close>

fun avail :: "event list \<Rightarrow> bytes" where
  "avail [] = []"
| "avail (Timeout # es) = []"
| "avail (Chunk bs # es) = (if bs = [] then [] else bs @ avail es)"

fun after :: "nat \<Rightarrow> event list \<Rightarrow> event list" where
  "after 0 es = es"
| "after (Suc k) [] = []"
| "after (Suc k) (Timeout # es) = es"
| "after (Suc k) (Chunk bs # es) =
     (if bs = [] then es
      else if length bs \<le> Suc k then after (Suc k - length bs) es
      else Chunk (drop (Suc k) bs) # es)"

declare receive_loop.simps [simp del]
declare avl_loop.simps [simp del]

section \<open>A sample record\<close>

text \<open>
  One Codec8 record: 1700000000000 ms, priority 1, the position 52.52, -13.3024682 at
  -100 m, heading 270, 7 satellites, speed 60, and an io element with the single 1-byte
  entry 1: 7.
\<close>

definition sample_record8 :: bytes where
  "sample_record8 =
     [0x00, 0x00, 0x01, 0x8B, 0xCF, 0xE5, 0x68, 0x00, 0x01,
      0x1F, 0x4D, 0xEA, 0x80, 0xF8, 0x12, 0x34, 0x56, 0xFF, 0x9C, 0x01, 0x0E, 0x07, 0x00, 0x3C,
      0x01, 0x01, 0x01, 0x01, 0x07, 0x00, 0x00, 0x00]"

definition sample_decoded8 :: avl_record where
  "sample_decoded8 =
     \<lparr>timestamp = 1700000000000, priority = 1,
      gps = \<lparr>longitude = 52.52, latitude = - 133024682 / 10000000,
             altitude = - 100, angle = 270, satellites = 7, speed = 60\<rparr>,
      io = [1 \<mapsto> 7]\<rparr>"



section \<open>The io element on the wire\<close>

text \<open>
  The encoding that the Codec8 io decoder reads, written out: an entry is its id byte
  followed by its value bytes, and a bucket is its count byte followed by its entries.
  \<open>put_entry\<close> writes one entry into the io map.
\<close>

type_synonym io_entry = "byte \<times> bytes"

fun enc_entry :: "io_entry \<Rightarrow> bytes" where
  "enc_entry (i, v) = i # v"

fun put_entry :: "(nat \<rightharpoonup> nat) \<Rightarrow> io_entry \<Rightarrow> (nat \<rightharpoonup> nat)" where
  "put_entry m (i, v) = m(unat i \<mapsto> be_nat v)"

definition enc_bucket :: "io_entry list \<Rightarrow> bytes" where
  "enc_bucket es = word_of_nat (length es) # concat (map enc_entry es)"

text \<open>
  The encoding that the Codec8 Extended io decoder reads: an entry is its id byte, the
  byte of its value length and the value bytes. \<open>put_prop\<close> writes an entry whose length
  is 1, 2, 4 or 8 into the io map, and leaves the map alone for any other length.
\<close>

fun enc_prop :: "io_entry \<Rightarrow> bytes" where
  "enc_prop (i, v) = i # word_of_nat (length v) # v"

fun put_prop :: "(nat \<rightharpoonup> nat) \<Rightarrow> io_entry \<Rightarrow> (nat \<rightharpoonup> nat)" where
  "put_prop m (i, v) = (if length v \<in> {1, 2, 4, 8} then m(unat i \<mapsto> be_nat v) else m)"

section \<open>The byte reader\<close>

lemma receive_loop_fst:
  "fst (receive_loop n data es) =
     (if n \<le> length data + length (avail es)
      then Some (data @ take (n - length data) (avail es)) else None)"
proof (induction n data es rule: receive_loop.induct)
  case (1 n data es)
  show ?case
  proof (cases "length data < n")
    case False
    then show ?thesis by (simp add: receive_loop.simps [of n data es])
  next
    case True
    note lt = this
    show ?thesis
    proof (cases es)
      case Nil
      with lt show ?thesis by (simp add: receive_loop.simps [of n data "[]"])
    next
      case (Cons e rest)
      show ?thesis
      proof (cases e)
        case Timeout
        with Cons lt show ?thesis by (simp add: receive_loop.simps [of n data "Timeout # rest"])
      next
        case (Chunk bs)
        let ?k = "n - length data"
        let ?es1 = "if length bs \<le> ?k then rest else Chunk (drop ?k bs) # rest"
        have rv: "recv es ?k = (Received (take ?k bs), ?es1)"
          using Cons Chunk by simp
        show ?thesis
        proof (cases "bs = []")
          case True
          with rv lt have "receive_loop n data es = (None, rest)"
            by (simp add: receive_loop.simps [of n data es])
          with Cons Chunk True lt show ?thesis by simp
        next
          case False
          with lt have ne: "take ?k bs \<noteq> []" by (cases bs) auto
          have eq: "receive_loop n data es = receive_loop n (data @ take ?k bs) ?es1"
            using rv lt ne by (simp add: receive_loop.simps [of n data es])
          note ih = "1.IH" [OF lt rv [symmetric] refl ne]
          show ?thesis
          proof (cases "length bs \<le> ?k")
            case True
            with ih eq Cons Chunk False lt show ?thesis by auto
          next
            case False
            with ih eq Cons Chunk \<open>bs \<noteq> []\<close> lt show ?thesis by (auto simp: min_def)
          qed
        qed
      qed
    qed
  qed
qed

lemma receive_loop_snd:
  "snd (receive_loop n data es) = after (n - length data) es"
proof (induction n data es rule: receive_loop.induct)
  case (1 n data es)
  show ?case
  proof (cases "length data < n")
    case False
    then show ?thesis by (simp add: receive_loop.simps [of n data es])
  next
    case True
    note lt = this
    then obtain k where k: "n - length data = Suc k" by (cases "n - length data") auto
    show ?thesis
    proof (cases es)
      case Nil
      with lt k show ?thesis by (simp add: receive_loop.simps [of n data "[]"])
    next
      case (Cons e rest)
      show ?thesis
      proof (cases e)
        case Timeout
        with Cons lt k show ?thesis by (simp add: receive_loop.simps [of n data "Timeout # rest"])
      next
        case (Chunk bs)
        let ?k = "n - length data"
        let ?es1 = "if length bs \<le> ?k then rest else Chunk (drop ?k bs) # rest"
        have rv: "recv es ?k = (Received (take ?k bs), ?es1)"
          using Cons Chunk by simp
        show ?thesis
        proof (cases "bs = []")
          case True
          with rv lt have "receive_loop n data es = (None, rest)"
            by (simp add: receive_loop.simps [of n data es])
          with Cons Chunk True k show ?thesis by simp
        next
          case False
          with lt have ne: "take ?k bs \<noteq> []" by (cases bs) auto
          have eq: "receive_loop n data es = receive_loop n (data @ take ?k bs) ?es1"
            using rv lt ne by (simp add: receive_loop.simps [of n data es])
          note ih = "1.IH" [OF lt rv [symmetric] refl ne]
          show ?thesis
          proof (cases "length bs \<le> ?k")
            case True
            have "n - (length data + length bs) = Suc k - length bs" using k by arith
            with True ih eq Cons Chunk \<open>bs \<noteq> []\<close> lt k show ?thesis by auto
          next
            case False
            with ih eq Cons Chunk \<open>bs \<noteq> []\<close> lt k show ?thesis by (auto simp: min_def)
          qed
        qed
      qed
    qed
  qed
qed

lemma receive_all_eq:
  "receive_all es n =
     (if n \<le> length (avail es) then Some (take n (avail es)) else None, after n es)"
  using receive_loop_fst [of n "[]" es] receive_loop_snd [of n "[]" es]
  by (simp add: receive_all_def prod_eq_iff)

lemma avail_after:
  "k \<le> length (avail es) \<Longrightarrow> avail (after k es) = drop k (avail es)"
proof (induction k es rule: after.induct)
  case (4 k bs es)
  then show ?case by (auto simp: not_le)
qed simp_all

lemma after_Nil [simp]: "after k [] = []"
  by (cases k) simp_all

lemma after_Timeout [simp]: "0 < k \<Longrightarrow> after k (Timeout # es) = es"
  by (cases k) simp_all

lemma after_Chunk [simp]:
  "0 < k \<Longrightarrow> after k (Chunk bs # es) =
     (if bs = [] then es
      else if length bs \<le> k then after (k - length bs) es
      else Chunk (drop k bs) # es)"
  by (cases k) simp_all

section \<open>The frame loop, one cycle\<close>

lemma process_avl_data_unsupported:
  "data \<noteq> [] \<Longrightarrow> unat (hd data) \<noteq> 0x08 \<Longrightarrow> unat (hd data) \<noteq> 0x8E \<Longrightarrow>
     process_avl_data data = Inr (None, unat (hd data))"
  by (cases data) (simp_all add: process_avl_data_def index_def ebind_def)

text \<open>
  A cycle that finds a whole frame in the stream: a length field \<open>lb\<close> that decodes to
  the length of the payload \<open>data\<close>, then the payload.
\<close>

lemma avl_loop_frame:
  assumes av: "avail (incoming c) = lb @ data @ rest"
    and lb: "length lb = 4" "be_nat lb = length data" and ne: "data \<noteq> []"
  shows "avl_loop c =
     (case process_avl_data data of
        Inl e \<Rightarrow> (Raised e, c\<lparr>incoming := after (length data) (after 4 (incoming c))\<rparr>)
      | Inr (records, codec_id) \<Rightarrow>
          (case records of
             None \<Rightarrow> (FailedProcess, c\<lparr>incoming := after (length data) (after 4 (incoming c))\<rparr>)
           | Some rs \<Rightarrow>
               (case pack_I (length rs) of
                  Inl e \<Rightarrow>
                    (Raised e,
                     c\<lparr>incoming := after (length data) (after 4 (incoming c)),
                        sunk := sunk c @ rs\<rparr>)
                | Inr response \<Rightarrow>
                    avl_loop
                      (c\<lparr>incoming := after (length data) (after 4 (incoming c)),
                         sunk := sunk c @ rs, sent := sent c @ [response]\<rparr>))))"
proof -
  have r1: "receive_all (incoming c) 4 = (Some lb, after 4 (incoming c))"
    using av lb by (simp add: receive_all_eq)
  have av1: "avail (after 4 (incoming c)) = data @ rest"
    using avail_after [of 4 "incoming c"] av lb by simp
  have r2: "receive_all (after 4 (incoming c)) (length data)
              = (Some data, after (length data) (after 4 (incoming c)))"
    using av1 by (simp add: receive_all_eq)
  have l0: "lb \<noteq> []" using lb by auto
  show ?thesis
    using r1 r2 lb ne l0
    by (subst avl_loop.simps)
       (simp add: unpack_u_def send_def split: sum.splits option.splits prod.splits)
qed

lemma avl_loop_closed:
  "avl_loop \<lparr>incoming = [], sent = s, sunk = k\<rparr>
     = (NoDataLength, \<lparr>incoming = [], sent = s, sunk = k\<rparr>)"
  by (subst avl_loop.simps) (simp add: receive_all_eq)

section \<open>The record loop and the acknowledgment\<close>

lemma ebind_Inr_iff: "ebind m f = Inr y \<longleftrightarrow> (\<exists>v. m = Inr v \<and> f v = Inr y)"
  by (cases m) (simp_all add: ebind_def)

lemma ebind_Inr [simp]: "ebind (Inr v) f = f v"
  by (simp add: ebind_def)

lemma ebind_Inl [simp]: "ebind (Inl e) f = Inl e"
  by (simp add: ebind_def)

lemma parse_record_Some:
  "parse_record data codec_id = Inr (r, n) \<Longrightarrow> \<exists>a. r = Some a"
  by (auto simp: parse_record_def ebind_Inr_iff)

lemma records_loop_result:
  "records_loop n data codec_id offset acc = Inr (res, c) \<Longrightarrow>
     c = codec_id \<and> (\<exists>rs. res = Some (acc @ rs) \<and> length rs = n)"
proof (induction n arbitrary: offset acc)
  case 0
  then show ?case by simp
next
  case (Suc n)
  from Suc.prems obtain r size where
    p: "parse_record (drop offset data) codec_id = Inr (r, size)"
    and k: "(case r of None \<Rightarrow> Inr (None, codec_id)
              | Some a \<Rightarrow> records_loop n data codec_id (offset + size) (acc @ [a])) = Inr (res, c)"
    by (auto simp: ebind_Inr_iff)
  from parse_record_Some [OF p] obtain a where a: "r = Some a" ..
  with k have "records_loop n data codec_id (offset + size) (acc @ [a]) = Inr (res, c)" by simp
  from Suc.IH [OF this] obtain rs where "c = codec_id" "res = Some ((acc @ [a]) @ rs)" "length rs = n"
    by blast
  then have "res = Some (acc @ (a # rs))" "length (a # rs) = Suc n" by simp_all
  with \<open>c = codec_id\<close> show ?case by blast
qed

lemma process_avl_data_count:
  assumes "process_avl_data data = Inr (Some rs, c)"
  shows "c = 0x08 \<and> index data 1 = Inr (length rs)
       \<or> c = 0x8E \<and> unpack_u 2 (py_slice data 1 3) = Inr (length rs)"
proof -
  from assms obtain codec_id where i0: "index data 0 = Inr codec_id"
    and body: "(if codec_id = 0x08 then
         ebind (index data 1) (\<lambda>record_count. records_loop record_count data codec_id 2 [])
       else if codec_id = 0x8E then
         ebind (unpack_u 2 (py_slice data 1 3)) (\<lambda>record_count.
           records_loop record_count data codec_id 3 [])
       else Inr (None, codec_id)) = Inr (Some rs, c)"
    unfolding process_avl_data_def ebind_Inr_iff by blast
  show ?thesis
  proof (cases "codec_id = 0x08")
    case True
    with body obtain k where "index data 1 = Inr k"
      "records_loop k data codec_id 2 [] = Inr (Some rs, c)"
      by (auto simp: ebind_Inr_iff)
    with records_loop_result [of k data codec_id 2 "[]" "Some rs" c] True
    show ?thesis by auto
  next
    case False
    note n8 = this
    show ?thesis
    proof (cases "codec_id = 0x8E")
      case True
      with body n8 obtain k where "unpack_u 2 (py_slice data 1 3) = Inr k"
        "records_loop k data codec_id 3 [] = Inr (Some rs, c)"
        by (auto simp: ebind_Inr_iff)
      with records_loop_result [of k data codec_id 3 "[]" "Some rs" c] True
      show ?thesis by auto
    next
      case False
      with body n8 show ?thesis by simp
    qed
  qed
qed


lemma unat_byte: "unat (word_of_nat n :: byte) = n mod 256"
  by (simp add: unat_of_nat)

lemma be_digits:
  fixes n :: nat
  assumes "n < 2 ^ 32"
  shows "((n div 16777216 mod 256 * 256 + n div 65536 mod 256) * 256 + n div 256 mod 256) * 256
          + n mod 256 = n"
proof -
  define a where "a = n div 256"
  define b where "b = a div 256"
  define c where "c = b div 256"
  have b_eq: "b = n div 65536" by (simp add: a_def b_def div_mult2_eq)
  have c_eq: "c = n div 16777216" by (simp add: b_eq c_def div_mult2_eq)
  have "c < 256" using assms unfolding c_eq by simp
  then have c_mod: "c mod 256 = c" by simp
  have "c * 256 + b mod 256 = b" unfolding c_def by simp
  moreover have "b * 256 + a mod 256 = a" unfolding b_def by simp
  moreover have "a * 256 + n mod 256 = n" unfolding a_def by simp
  ultimately have "((c mod 256 * 256 + b mod 256) * 256 + a mod 256) * 256 + n mod 256 = n"
    using c_mod by simp
  then show ?thesis unfolding c_eq b_eq a_def .
qed

lemma pack_I_be_nat:
  assumes "n < 2 ^ 32"
  shows "\<exists>b. pack_I n = Inr b \<and> length b = 4 \<and> be_nat b = n"
  using assms be_digits [OF assms]
  by (simp add: pack_I_def be_nat_def unat_byte)

lemma sample_io8:
  "parse_io_element (drop 24 (sample_record8 @ rest)) 0x08 = Inr ([1 \<mapsto> 7], 8)"
  by (simp add: sample_record8_def py_slice_def unpack_u_def be_nat_def
     index_def parse_io_element_def io_value_def)

lemma sample_gps8:
  "parse_gps_element (py_slice (sample_record8 @ rest) 9 24) = Inr (gps sample_decoded8)"
  by (simp add: sample_record8_def sample_decoded8_def py_slice_def unpack_u_def be_nat_def
     index_def parse_gps_element_def unpack_s_def)

lemma sample_parse8:
  "parse_record (sample_record8 @ rest) 0x08 = Inr (Some sample_decoded8, 32)"
  unfolding parse_record_def sample_io8 sample_gps8
  by (simp add: sample_record8_def sample_decoded8_def py_slice_def unpack_u_def be_nat_def
       utcfromtimestamp_ms_def index_def)

lemma sample_frame8:
  "process_avl_data (0x08 # 0x01 # sample_record8) = Inr (Some [sample_decoded8], 8)"
proof -
  have "records_loop (Suc 0) (0x08 # 0x01 # sample_record8) 8 2 []
          = Inr (Some [sample_decoded8], 8)"
    using sample_parse8 [of "[]"] by simp
  then show ?thesis by (simp add: process_avl_data_def index_def)
qed

lemma unat_byte_less: "unat (b :: byte) < 256"
  using unsigned_less [of b, where ?'a = nat] by simp

section \<open>Signed readings\<close>

lemma sint_of_nat_twos:
  assumes "n < 2 ^ LENGTH('a::len)"
  shows "sint (word_of_nat n :: 'a word) =
     (if 2 ^ (LENGTH('a) - 1) \<le> int n then int n - 2 ^ LENGTH('a) else int n)"
proof -
  define p :: int where "p = 2 ^ (LENGTH('a) - 1)"
  have pp: "(2 :: int) ^ LENGTH('a) = 2 * p"
    unfolding p_def by (cases "LENGTH('a)") simp_all
  have p0: "0 < p" unfolding p_def by simp
  have n2: "int n < 2 * p" using assms pp
    by (metis of_nat_less_iff of_nat_numeral of_nat_power)
  have s: "sint (word_of_nat n :: 'a word) = (int n + p) mod (2 * p) - p"
    using int_word_sint [of "int n", where ?'a = 'a] by (simp add: pp p_def)
  have r: "sint (word_of_nat n :: 'a word) = (if p \<le> int n then int n - 2 * p else int n)"
  proof (cases "p \<le> int n")
    case True
    have "int n + p = int n - p + 2 * p" by simp
    then have "(int n + p) mod (2 * p) = (int n - p + 2 * p) mod (2 * p)" by (rule arg_cong)
    also have "\<dots> = (int n - p) mod (2 * p)" by (rule mod_add_self2)
    also have "\<dots> = int n - p" using True n2 by (simp add: mod_pos_pos_trivial)
    finally show ?thesis using True s by simp
  next
    case False
    then have "(int n + p) mod (2 * p) = int n + p" using p0 by (simp add: mod_pos_pos_trivial)
    with False s show ?thesis by simp
  qed
  then show ?thesis unfolding pp unfolding p_def .
qed

lemma be_nat_bound: "be_nat bs < 256 ^ length bs"
proof -
  have "foldl (\<lambda>a b. a * 256 + unat b) a bs < (a + 1) * 256 ^ length bs" for a
  proof (induction bs arbitrary: a)
    case Nil
    then show ?case by simp
  next
    case (Cons b bs)
    have "(a * 256 + unat b + 1) * 256 ^ length bs \<le> ((a + 1) * 256) * 256 ^ length bs"
      using unat_byte_less [of b] by (intro mult_right_mono) simp_all
    with Cons.IH [of "a * 256 + unat b"]
    have "foldl (\<lambda>a b. a * 256 + unat b) (a * 256 + unat b) bs
            < ((a + 1) * 256) * 256 ^ length bs"
      by (rule less_le_trans)
    then show ?case by (simp add: algebra_simps)
  qed
  from this [of 0] show ?thesis by (simp add: be_nat_def)
qed

lemma unpack_s_4:
  "length s = 4 \<Longrightarrow> unpack_s 4 s = Inr (sint (word_of_nat (be_nat s) :: 32 word))"
  using be_nat_bound [of s] sint_of_nat_twos [of "be_nat s", where ?'a = 32]
  by (simp add: unpack_s_def Let_def)

lemma unpack_s_2:
  "length s = 2 \<Longrightarrow> unpack_s 2 s = Inr (sint (word_of_nat (be_nat s) :: 16 word))"
  using be_nat_bound [of s] sint_of_nat_twos [of "be_nat s", where ?'a = 16]
  by (simp add: unpack_s_def Let_def)

lemma twos_complement_32:
  fixes v :: int
  assumes "- (2 ^ 31) \<le> v" "v < 2 ^ 31"
  shows "sint (word_of_nat (nat (v mod 2 ^ 32)) :: 32 word) = v"
proof -
  have "word_of_nat (nat (v mod 2 ^ 32)) = (word_of_int (v mod 2 ^ 32) :: 32 word)"
    by simp
  also have "\<dots> = word_of_int v"
    using word_of_int_eq_iff [of "v mod 2 ^ 32" v, where ?'a = 32] by (simp add: take_bit_eq_mod)
  finally have "sint (word_of_nat (nat (v mod 2 ^ 32)) :: 32 word) = sint (word_of_int v :: 32 word)"
    by simp
  also have "\<dots> = (v + 2 ^ 31) mod 2 ^ 32 - 2 ^ 31"
    by (simp add: int_word_sint)
  also have "(v + 2 ^ 31) mod 2 ^ 32 = v + 2 ^ 31"
    using assms by (intro mod_pos_pos_trivial) simp_all
  finally show ?thesis by simp
qed

section \<open>Reading at an offset\<close>

lemma index_at: "drop offset data = x # rest \<Longrightarrow> index data offset = Inr (unat x)"
proof -
  assume a: "drop offset data = x # rest"
  then have "offset < length data" by (cases "offset < length data") simp_all
  moreover from this a have "data ! offset = x" by (simp add: hd_drop_conv_nth [symmetric])
  ultimately show ?thesis by (simp add: index_def)
qed

lemma drop_at: "drop offset data = a @ rest \<Longrightarrow> drop (offset + length a) data = rest"
proof -
  assume a: "drop offset data = a @ rest"
  have "drop (offset + length a) data = drop (length a) (drop offset data)"
    by (simp add: add.commute)
  with a show ?thesis by simp
qed

lemma slice_at:
  "drop offset data = a @ rest \<Longrightarrow> py_slice data offset (offset + length a) = a"
  by (simp add: py_slice_def)

lemma io_value_at:
  assumes "drop offset data = v @ rest" "length v = w" "0 < w"
  shows "io_value w data offset = Inr (be_nat v)"
proof (cases "w = 1")
  case True
  with assms obtain x where v: "v = [x]" by (cases v) auto
  with assms have "index data offset = Inr (unat x)" by (simp add: index_at)
  with True v show ?thesis by (simp add: io_value_def be_nat_def)
next
  case False
  with slice_at [OF assms(1)] assms(2) show ?thesis
    by (simp add: io_value_def unpack_u_def)
qed

lemma io_bucket_entries:
  assumes "\<forall>e \<in> set es. length (snd e) = w" "0 < w"
    and "drop offset data = concat (map enc_entry es) @ rest"
  shows "io_bucket w (length es) data offset m
           = Inr (foldl put_entry m es, offset + length es * (1 + w))"
  using assms
proof (induction es arbitrary: offset m)
  case Nil
  then show ?case by simp
next
  case (Cons e es)
  obtain i v where e: "e = (i, v)" by (cases e)
  from Cons.prems e have lv: "length v = w" by simp
  from Cons.prems e have d0: "drop offset data = i # (v @ concat (map enc_entry es) @ rest)"
    by simp
  from drop_at [of offset data "[i]"] d0
  have d1: "drop (offset + 1) data = v @ (concat (map enc_entry es) @ rest)" by simp
  from drop_at [OF d1] lv
  have d2: "drop (offset + 1 + w) data = concat (map enc_entry es) @ rest" by simp
  have i0: "index data offset = Inr (unat i)" using d0 by (rule index_at)
  have i1: "io_value w data (offset + 1) = Inr (be_nat v)"
    using d1 lv \<open>0 < w\<close> by (rule io_value_at)
  have "io_bucket w (length es) data (offset + 1 + w) (m(unat i \<mapsto> be_nat v))
          = Inr (foldl put_entry (m(unat i \<mapsto> be_nat v)) es,
                 offset + 1 + w + length es * (1 + w))"
    using Cons.prems d2 by (intro Cons.IH) simp_all
  with i0 i1 e show ?case by simp
qed

lemma enc_entries_length:
  "\<forall>e \<in> set es. length (snd e) = w \<Longrightarrow>
     length (concat (map enc_entry es)) = length es * (1 + w)"
  by (induction es) auto

lemma io_bucket_enc:
  assumes n: "length es < 256" and w: "\<forall>e \<in> set es. length (snd e) = w" "0 < w"
    and d: "drop offset data = enc_bucket es @ rest"
  shows "index data offset = Inr (length es)"
    and "io_bucket w (length es) data (offset + 1) m
           = Inr (foldl put_entry m es, offset + 1 + length es * (1 + w))"
    and "drop (offset + 1 + length es * (1 + w)) data = rest"
proof -
  from d have d0: "drop offset data
      = word_of_nat (length es) # (concat (map enc_entry es) @ rest)"
    by (simp add: enc_bucket_def)
  from index_at [OF d0] n show "index data offset = Inr (length es)"
    by (simp add: unat_byte)
  from drop_at [of offset data "[word_of_nat (length es)]"] d0
  have d1: "drop (offset + 1) data = concat (map enc_entry es) @ rest" by simp
  from io_bucket_entries [OF w d1]
  show "io_bucket w (length es) data (offset + 1) m
           = Inr (foldl put_entry m es, offset + 1 + length es * (1 + w))" .
  from drop_at [OF d1] enc_entries_length [OF w(1)]
  show "drop (offset + 1 + length es * (1 + w)) data = rest" by simp
qed

lemma io_props_step:
  assumes lv: "length v < 256"
    and d: "drop offset data = enc_prop (i, v) @ rest"
  shows "io_props (Suc n) data offset m
           = io_props n data (offset + 2 + length v) (put_prop m (i, v))"
proof -
  from d have d0: "drop offset data = i # (word_of_nat (length v) # v @ rest)" by simp
  from drop_at [of offset data "[i]"] d0
  have d1: "drop (offset + 1) data = word_of_nat (length v) # (v @ rest)" by simp
  from drop_at [of "offset + 1" data "[word_of_nat (length v)]"] d1
  have d2: "drop (offset + 2) data = v @ rest" by (simp add: add.assoc)
  have i0: "index data offset = Inr (unat i)" using d0 by (rule index_at)
  have i1: "index data (offset + 1) = Inr (length v)"
    using index_at [OF d1] lv by (simp add: unat_byte)
  note sl = slice_at [OF d2]
  consider "length v = 1" | "length v = 2" | "length v = 4" | "length v = 8"
    | "length v \<notin> {1, 2, 4, 8}" by auto
  then show ?thesis
  proof cases
    case 1
    then obtain x where v: "v = [x]" by (cases v) auto
    with d2 have i2: "index data (offset + 2) = Inr (unat x)" by (simp add: index_at)
    have step: "io_props (Suc n) data offset m
        = io_props n data (offset + 3) (m(unat i \<mapsto> unat x))"
      by (simp only: io_props.simps i0 i1 i2 ebind_Inr 1 simp_thms if_True)
    have e1: "offset + 2 + length v = offset + 3" using v by simp
    have e2: "put_prop m (i, v) = m(unat i \<mapsto> unat x)" using v by (simp add: be_nat_def)
    show ?thesis by (simp only: step e1 e2)
  next
    case 2
    have a: "offset + 2 + length v = offset + 4" using 2 by simp
    from sl have "py_slice data (offset + 2) (offset + 4) = v" by (simp only: a)
    then have u: "unpack_u 2 (py_slice data (offset + 2) (offset + 4)) = Inr (be_nat v)"
      using 2 by (simp add: unpack_u_def)
    have step: "io_props (Suc n) data offset m
        = io_props n data (offset + 4) (m(unat i \<mapsto> be_nat v))"
      using i0 i1 u 2 by simp
    have e2: "put_prop m (i, v) = m(unat i \<mapsto> be_nat v)" using 2 by simp
    show ?thesis by (simp only: step a e2)
  next
    case 3
    have a: "offset + 2 + length v = offset + 6" using 3 by simp
    from sl have "py_slice data (offset + 2) (offset + 6) = v" by (simp only: a)
    then have u: "unpack_u 4 (py_slice data (offset + 2) (offset + 6)) = Inr (be_nat v)"
      using 3 by (simp add: unpack_u_def)
    have step: "io_props (Suc n) data offset m
        = io_props n data (offset + 6) (m(unat i \<mapsto> be_nat v))"
      using i0 i1 u 3 by simp
    have e2: "put_prop m (i, v) = m(unat i \<mapsto> be_nat v)" using 3 by simp
    show ?thesis by (simp only: step a e2)
  next
    case 4
    have a: "offset + 2 + length v = offset + 10" using 4 by simp
    from sl have "py_slice data (offset + 2) (offset + 10) = v" by (simp only: a)
    then have u: "unpack_u 8 (py_slice data (offset + 2) (offset + 10)) = Inr (be_nat v)"
      using 4 by (simp add: unpack_u_def)
    have step: "io_props (Suc n) data offset m
        = io_props n data (offset + 10) (m(unat i \<mapsto> be_nat v))"
      using i0 i1 u 4 by simp
    have e2: "put_prop m (i, v) = m(unat i \<mapsto> be_nat v)" using 4 by simp
    show ?thesis by (simp only: step a e2)
  next
    case 5
    with i0 i1 show ?thesis by simp
  qed
qed

lemma io_props_entries:
  assumes "\<forall>e \<in> set es. length (snd e) < 256"
    and "drop offset data = concat (map enc_prop es) @ rest"
  shows "io_props (length es) data offset m
           = Inr (foldl put_prop m es, offset + (\<Sum>e\<leftarrow>es. 2 + length (snd e)))"
  using assms
proof (induction es arbitrary: offset m)
  case Nil
  then show ?case by simp
next
  case (Cons e es)
  obtain i v where e: "e = (i, v)" by (cases e)
  from Cons.prems e have lv: "length v < 256" by simp
  from Cons.prems e
  have d0: "drop offset data = enc_prop (i, v) @ (concat (map enc_prop es) @ rest)" by simp
  from drop_at [OF d0]
  have d1: "drop (offset + 2 + length v) data = concat (map enc_prop es) @ rest"
    by (simp add: add.assoc)
  have "io_props (length es) data (offset + 2 + length v) (put_prop m (i, v))
          = Inr (foldl put_prop (put_prop m (i, v)) es,
                 offset + 2 + length v + (\<Sum>e\<leftarrow>es. 2 + length (snd e)))"
    using Cons.prems d1 by (intro Cons.IH) simp_all
  with io_props_step [OF lv d0, of "length es" m] e show ?case
    by (simp add: add.assoc)
qed

section \<open>Frames of well-formed records\<close>






section \<open>Records that do not decode\<close>




section \<open>The properties of the specification\<close>

subsection \<open>C1: the handshake\<close>

text \<open>
  C1, as amended. For every identity length \<open>L\<close> from 1 to 255: when the stream holds a
  2-byte preamble whose second byte is \<open>L\<close>, followed by \<open>L\<close> identity bytes (in whatever
  chunks they arrive), the handshake succeeds with the decoded identity, sends the one
  byte \<open>0x01\<close> and nothing else, and has read nothing past the identity: what follows it
  is still in the stream, so the acknowledgment goes out before any frame is read.
\<close>

theorem handshake_accepts_identity:
  assumes av: "avail (incoming c) = x # l # ident @ rest"
    and len: "length ident = unat l" and nz: "l \<noteq> 0"
  shows "handshake decode c =
     (Inr (decode ident),
      c\<lparr>incoming := after (unat l) (after 2 (incoming c)), sent := sent c @ [[0x01]]\<rparr>)
     \<and> avail (after (unat l) (after 2 (incoming c))) = rest"
proof -
  have r1: "receive_all (incoming c) 2 = (Some [x, l], after 2 (incoming c))"
    using av by (simp add: receive_all_eq)
  have av1: "avail (after 2 (incoming c)) = ident @ rest"
    using avail_after [of 2 "incoming c"] av by simp
  have r2: "receive_all (after 2 (incoming c)) (unat l)
              = (Some ident, after (unat l) (after 2 (incoming c)))"
    using av1 len by (simp add: receive_all_eq)
  have av2: "avail (after (unat l) (after 2 (incoming c))) = rest"
    using avail_after [of "unat l" "after 2 (incoming c)"] av1 len by simp
  have "unat l \<noteq> 0" using nz by (simp add: unat_eq_0)
  with len have "ident \<noteq> []" by auto
  with r1 r2 len av2 show ?thesis
    by (simp add: handshake_def index_def pack_B_def send_def)
qed

text \<open>
  The identity \<open>123\<close> arriving in three chunks, with one more byte behind it, which stays
  in the stream.
\<close>

theorem handshake_accepts_identity_witness:
  "handshake (map unat)
     \<lparr>incoming = [Chunk [0x00], Chunk [0x03, 0x31], Chunk [0x32, 0x33, 0x00]],
      sent = [], sunk = []\<rparr>
   = (Inr [0x31, 0x32, 0x33], \<lparr>incoming = [Chunk [0x00]], sent = [[0x01]], sunk = []\<rparr>)"
  using handshake_accepts_identity
    [of "\<lparr>incoming = [Chunk [0x00], Chunk [0x03, 0x31], Chunk [0x32, 0x33, 0x00]],
          sent = [], sunk = []\<rparr>" "0x00" "0x03" "[0x31, 0x32, 0x33]" "[0x00]" "map unat"]
  by simp

text \<open>
  With \<open>L = 0\<close> the read of the identity returns the empty bytes object, which the test
  of the handler takes for a missing identity: nothing is sent.
\<close>

theorem handshake_empty_identity_rejected:
  "handshake (map unat) \<lparr>incoming = [Chunk [0x00, 0x00]], sent = [], sunk = []\<rparr>
     = (Inl IncompleteIMEI, \<lparr>incoming = [], sent = [], sunk = []\<rparr>)"
  by (simp add: handshake_def receive_all_eq index_def)

subsection \<open>C2: an unsupported codec tag\<close>

text \<open>
  C2. For every payload whose first byte is neither \<open>0x08\<close> nor \<open>0x8E\<close>, the decoder
  returns no record list, and a cycle of the loop that reads this payload as its frame
  ends the session at once: the connection's \<open>sent\<close> is what it was, so nothing has been
  acknowledged for the frame.
\<close>

theorem unsupported_codec_closes:
  assumes ne: "data \<noteq> []"
    and tag: "unat (hd data) \<noteq> 0x08" "unat (hd data) \<noteq> 0x8E"
  shows "process_avl_data data = Inr (None, unat (hd data))
     \<and> (\<forall>c lb rest.
          avail (incoming c) = lb @ data @ rest \<and> length lb = 4 \<and> be_nat lb = length data
          \<longrightarrow> avl_loop c
                = (FailedProcess, c\<lparr>incoming := after (length data) (after 4 (incoming c))\<rparr>))"
  using avl_loop_frame [OF _ _ _ ne] process_avl_data_unsupported [OF ne tag]
  by simp

theorem unsupported_codec_closes_witness:
  "process_avl_data [0x01, 0x00] = Inr (None, 1)
   \<and> avl_loop \<lparr>incoming = [Chunk [0x00, 0x00, 0x00, 0x02, 0x01, 0x00, 0x07]],
                sent = [[0x01]], sunk = []\<rparr>
     = (FailedProcess, \<lparr>incoming = [Chunk [0x07]], sent = [[0x01]], sunk = []\<rparr>)"
proof -
  let ?c = "\<lparr>incoming = [Chunk [0x00, 0x00, 0x00, 0x02, 0x01, 0x00, 0x07]],
              sent = [[0x01]], sunk = []\<rparr>"
  have h: "[0x01, 0x00 :: byte] \<noteq> []" "unat (hd [0x01, 0x00 :: byte]) \<noteq> 0x08"
    "unat (hd [0x01, 0x00 :: byte]) \<noteq> 0x8E"
    by simp_all
  have s: "avail (incoming ?c) = [0x00, 0x00, 0x00, 0x02] @ [0x01, 0x00] @ [0x07]
      \<and> length [0x00, 0x00, 0x00, 0x02 :: byte] = 4
      \<and> be_nat [0x00, 0x00, 0x00, 0x02] = length [0x01, 0x00 :: byte]"
    by (simp add: be_nat_def)
  from unsupported_codec_closes [OF h] s
  have "process_avl_data [0x01, 0x00] = Inr (None, unat (hd [0x01, 0x00 :: byte]))"
    and "avl_loop ?c
      = (FailedProcess,
         ?c\<lparr>incoming := after (length [0x01, 0x00 :: byte]) (after 4 (incoming ?c))\<rparr>)"
    by blast+
  then show ?thesis by simp
qed

subsection \<open>C3: the byte reader\<close>

text \<open>
  C3. For every count \<open>n\<close>, \<open>receive_all\<close> returns the first \<open>n\<close> bytes of the stream in
  arrival order when that many arrive before the peer closes or a timeout passes, and
  \<open>None\<close> otherwise; whatever it returns that is not \<open>None\<close> has exactly \<open>n\<close> bytes.
\<close>

theorem receive_all_exact_or_none:
  "fst (receive_all es n) =
     (if n \<le> length (avail es) then Some (take n (avail es)) else None)
   \<and> (\<forall>d. fst (receive_all es n) = Some d \<longrightarrow> length d = n)"
  by (simp add: receive_all_eq)

theorem receive_all_exact_or_none_witness:
  "fst (receive_all [Chunk [0x01, 0x02], Chunk [0x03, 0x04, 0x05]] 4)
     = Some [0x01, 0x02, 0x03, 0x04]
   \<and> fst (receive_all [Chunk [0x01, 0x02], Timeout, Chunk [0x03]] 3) = None
   \<and> fst (receive_all [Chunk [0x01, 0x02]] 3) = None"
  using receive_all_exact_or_none [of "[Chunk [0x01, 0x02], Chunk [0x03, 0x04, 0x05]]" 4]
    receive_all_exact_or_none [of "[Chunk [0x01, 0x02], Timeout, Chunk [0x03]]" 3]
    receive_all_exact_or_none [of "[Chunk [0x01, 0x02]]" 3]
  by simp

subsection \<open>C4: the keepalive\<close>

text \<open>
  C4. When the four bytes of the length field decode to 0, the cycle is the loop started
  again on the rest of the stream with the same \<open>sent\<close> and the same records: nothing is
  sent, nothing is decoded, the session does not end, and the next thing read is what
  follows the four bytes.
\<close>

theorem keepalive_continues:
  assumes av: "avail (incoming c) = lb @ rest"
    and lb: "length lb = 4" "be_nat lb = 0"
  shows "avl_loop c = avl_loop (c\<lparr>incoming := after 4 (incoming c)\<rparr>)
     \<and> avail (after 4 (incoming c)) = rest"
proof -
  have r1: "receive_all (incoming c) 4 = (Some lb, after 4 (incoming c))"
    using av lb by (simp add: receive_all_eq)
  have av1: "avail (after 4 (incoming c)) = rest"
    using avail_after [of 4 "incoming c"] av lb by simp
  have l0: "lb \<noteq> []" using lb by auto
  have "avl_loop c = avl_loop (c\<lparr>incoming := after 4 (incoming c)\<rparr>)"
    using r1 lb l0 by (subst avl_loop.simps) (simp add: unpack_u_def)
  with av1 show ?thesis by simp
qed

text \<open>A keepalive, after which the peer closes: the session ends on the next read.\<close>

theorem keepalive_continues_witness:
  "avl_loop \<lparr>incoming = [Chunk [0x00, 0x00, 0x00, 0x00]], sent = [[0x01]], sunk = []\<rparr>
     = (NoDataLength, \<lparr>incoming = [], sent = [[0x01]], sunk = []\<rparr>)"
  using keepalive_continues
    [of "\<lparr>incoming = [Chunk [0x00, 0x00, 0x00, 0x00]], sent = [[0x01]], sunk = []\<rparr>"
        "[0x00, 0x00, 0x00, 0x00]" "[]"]
  by (simp add: be_nat_def avl_loop_closed)

subsection \<open>C5: the record count of Codec8 Extended\<close>



subsection \<open>C6: value lengths that the Codec8 Extended io decoder skips\<close>

text \<open>
  C6. When the io element holds, after the event id and the properties count, that many
  entries of an id byte, a length byte and as many value bytes as the length says, the
  decoder returns the map of the entries whose length is 1, 2, 4 or 8, written in order.
  An entry of any other length adds nothing to the map, the cursor moves past exactly its
  two header bytes and its declared value bytes, and the entries behind it are decoded
  as they would be without it: the element is consumed to its end.
\<close>

theorem tagged_io_skips_unsupported:
  assumes n: "length es < 256" and lv: "\<forall>e \<in> set es. length (snd e) < 256"
    and d: "data = event_id # word_of_nat (length es) # concat (map enc_prop es) @ rest"
  shows "parse_io_element data 0x8E
     = Inr (foldl put_prop Map.empty es, 2 + (\<Sum>e\<leftarrow>es. 2 + length (snd e)))"
proof -
  have i0: "index data 0 = Inr (unat event_id)" "index data 1 = Inr (length es)"
    using d n by (simp_all add: index_def unat_byte)
  have "drop 2 data = concat (map enc_prop es) @ rest" using d by simp
  from io_props_entries [OF lv this, of Map.empty] i0 show ?thesis
    by (simp add: parse_io_element_def)
qed

text \<open>
  Three entries: id 5 with one byte, id 6 with 16 bytes, id 7 with two bytes. The map has
  no entry for 6, and 7 is read from behind the 16 bytes.
\<close>

theorem tagged_io_skips_unsupported_witness:
  "parse_io_element
     [0x00, 0x03, 0x05, 0x01, 0x2A,
      0x06, 0x10, 0x00, 0x01, 0x02, 0x03, 0x04, 0x05, 0x06, 0x07,
                  0x08, 0x09, 0x0A, 0x0B, 0x0C, 0x0D, 0x0E, 0x0F,
      0x07, 0x02, 0x01, 0x00] 0x8E
   = Inr ([5 \<mapsto> 42, 7 \<mapsto> 256], 27)"
proof -
  let ?es = "[(0x05, [0x2A]),
              (0x06, [0x00, 0x01, 0x02, 0x03, 0x04, 0x05, 0x06, 0x07,
                      0x08, 0x09, 0x0A, 0x0B, 0x0C, 0x0D, 0x0E, 0x0F]),
              (0x07, [0x01, 0x00])] :: io_entry list"
  from tagged_io_skips_unsupported [of ?es _ "0x00" "[]"]
  show ?thesis by (simp add: be_nat_def)
qed

subsection \<open>C7: the buckets of the Codec8 io element\<close>

text \<open>
  C7. When the io element holds, after the event id and the element count, the bucket of
  the 1-byte values, then those of the 2-byte, 4-byte and 8-byte values, each with its own
  count byte, the decoder returns the one map obtained by writing the entries in that
  order, bucket after bucket, each write replacing what an earlier one stored under the
  same id, and it consumes exactly these bytes.
\<close>

theorem io_buckets_last_write_wins:
  assumes n: "length e1 < 256" "length e2 < 256" "length e4 < 256" "length e8 < 256"
    and w: "\<forall>e \<in> set e1. length (snd e) = 1" "\<forall>e \<in> set e2. length (snd e) = 2"
      "\<forall>e \<in> set e4. length (snd e) = 4" "\<forall>e \<in> set e8. length (snd e) = 8"
    and d: "data = event_id # element_count
               # enc_bucket e1 @ enc_bucket e2 @ enc_bucket e4 @ enc_bucket e8 @ rest"
  shows "parse_io_element data 0x08
     = Inr (foldl put_entry Map.empty (e1 @ e2 @ e4 @ e8),
            6 + 2 * length e1 + 3 * length e2 + 5 * length e4 + 9 * length e8)"
proof -
  let ?m1 = "foldl put_entry Map.empty e1"
  let ?m2 = "foldl put_entry ?m1 e2"
  let ?m4 = "foldl put_entry ?m2 e4"
  let ?o1 = "2 + 1 + length e1 * (1 + 1)"
  let ?o2 = "?o1 + 1 + length e2 * (1 + 2)"
  let ?o4 = "?o2 + 1 + length e4 * (1 + 4)"
  have i0: "index data 0 = Inr (unat event_id)" "index data 1 = Inr (unat element_count)"
    using d by (simp_all add: index_def)
  have d1: "drop 2 data = enc_bucket e1 @ (enc_bucket e2 @ enc_bucket e4 @ enc_bucket e8 @ rest)"
    using d by simp
  have p: "0 < (1::nat)" "0 < (2::nat)" "0 < (4::nat)" "0 < (8::nat)" by simp_all
  note c1 = io_bucket_enc(1) [OF n(1) w(1) p(1) d1]
  note b1 = io_bucket_enc(2) [OF n(1) w(1) p(1) d1, of Map.empty]
  have d2: "drop ?o1 data = enc_bucket e2 @ (enc_bucket e4 @ enc_bucket e8 @ rest)"
    using io_bucket_enc(3) [OF n(1) w(1) p(1) d1] by simp
  note c2 = io_bucket_enc(1) [OF n(2) w(2) p(2) d2]
  note b2 = io_bucket_enc(2) [OF n(2) w(2) p(2) d2, of ?m1]
  have d4: "drop ?o2 data = enc_bucket e4 @ (enc_bucket e8 @ rest)"
    using io_bucket_enc(3) [OF n(2) w(2) p(2) d2] by simp
  note c4 = io_bucket_enc(1) [OF n(3) w(3) p(3) d4]
  note b4 = io_bucket_enc(2) [OF n(3) w(3) p(3) d4, of ?m2]
  have d8: "drop ?o4 data = enc_bucket e8 @ rest"
    using io_bucket_enc(3) [OF n(3) w(3) p(3) d4] by simp
  note c8 = io_bucket_enc(1) [OF n(4) w(4) p(4) d8]
  note b8 = io_bucket_enc(2) [OF n(4) w(4) p(4) d8, of ?m4]
  show ?thesis
    using i0 c1 b1 c2 b2 c4 b4 c8 b8
    by (simp add: parse_io_element_def)
qed

text \<open>
  The buckets \<open>(n1 = 1, [id 1, value 7]) (n2 = 0) (n4 = 0) (n8 = 0)\<close> give \<open>{1: 7}\<close>; and
  when the 2-byte bucket holds id 1 again, with the value 256, that value replaces the 7.
\<close>

theorem io_buckets_last_write_wins_witness:
  "parse_io_element [0x00, 0x01, 0x01, 0x01, 0x07, 0x00, 0x00, 0x00] 0x08 = Inr ([1 \<mapsto> 7], 8)
   \<and> parse_io_element
        [0x00, 0x03, 0x02, 0x01, 0x07, 0x02, 0x09, 0x01, 0x01, 0x01, 0x00, 0x00, 0x00] 0x08
     = Inr ([1 \<mapsto> 256, 2 \<mapsto> 9], 13)"
proof -
  have a: "parse_io_element [0x00, 0x01, 0x01, 0x01, 0x07, 0x00, 0x00, 0x00] 0x08
      = Inr (foldl put_entry Map.empty ([(0x01, [0x07])] @ [] @ [] @ []), 8)"
    using io_buckets_last_write_wins
      [of "[(0x01, [0x07])]" "[]" "[]" "[]"
          "[0x00, 0x01, 0x01, 0x01, 0x07, 0x00, 0x00, 0x00]" "0x00" "0x01" "[]"]
    by (simp add: enc_bucket_def)
  have b: "parse_io_element
        [0x00, 0x03, 0x02, 0x01, 0x07, 0x02, 0x09, 0x01, 0x01, 0x01, 0x00, 0x00, 0x00] 0x08
      = Inr (foldl put_entry Map.empty
               ([(0x01, [0x07]), (0x02, [0x09])] @ [(0x01, [0x01, 0x00])] @ [] @ []), 13)"
    using io_buckets_last_write_wins
      [of "[(0x01, [0x07]), (0x02, [0x09])]" "[(0x01, [0x01, 0x00])]" "[]" "[]"
          "[0x00, 0x03, 0x02, 0x01, 0x07, 0x02, 0x09, 0x01, 0x01, 0x01, 0x00, 0x00, 0x00]"
          "0x00" "0x03" "[]"]
    by (simp add: enc_bucket_def)
  have "[1 \<mapsto> 7, 2 \<mapsto> 9, 1 \<mapsto> 256] = [1 :: nat \<mapsto> 256, 2 \<mapsto> (9 :: nat)]"
    by (rule ext) simp
  with a b show ?thesis by (simp add: be_nat_def)
qed

subsection \<open>C8: the GPS element\<close>

text \<open>
  C8. On every 15 bytes the GPS decoder succeeds, whatever the values: longitude and
  latitude are the first and second four bytes read big-endian as signed 32-bit integers
  (the reading of the machine word by \<open>sint\<close>) over 10000000, the altitude is the signed
  16-bit reading of the next two bytes, the angle the unsigned 16-bit one, the satellites
  the next byte and the speed the unsigned 16-bit reading of the last two. So a longitude
  written as the signed 32-bit integer \<open>v\<close> (its two's complement in four bytes) is
  read back as \<open>v / 10000000\<close>; for 525200000 that is 52.52. The quotient is the exact
  one: the source's float is the double nearest to it.
\<close>

theorem gps_element_layout:
  assumes "length data = 15"
  shows "parse_gps_element data =
     Inr \<lparr>longitude = real_of_int (sint (word_of_nat (be_nat (take 4 data)) :: 32 word)) / 10000000,
          latitude =
            real_of_int (sint (word_of_nat (be_nat (take 4 (drop 4 data))) :: 32 word)) / 10000000,
          altitude = sint (word_of_nat (be_nat (take 2 (drop 8 data))) :: 16 word),
          angle = be_nat (take 2 (drop 10 data)),
          satellites = unat (data ! 12),
          speed = be_nat (take 2 (drop 13 data))\<rparr>
     \<and> (\<forall>v. - (2 ^ 31) \<le> v \<and> v < 2 ^ 31 \<and> be_nat (take 4 data) = nat (v mod 2 ^ 32) \<longrightarrow>
           (\<exists>g. parse_gps_element data = Inr g \<and> longitude g = real_of_int v / 10000000))"
proof -
  have layout: "parse_gps_element data =
     Inr \<lparr>longitude = real_of_int (sint (word_of_nat (be_nat (take 4 data)) :: 32 word)) / 10000000,
          latitude =
            real_of_int (sint (word_of_nat (be_nat (take 4 (drop 4 data))) :: 32 word)) / 10000000,
          altitude = sint (word_of_nat (be_nat (take 2 (drop 8 data))) :: 16 word),
          angle = be_nat (take 2 (drop 10 data)),
          satellites = unat (data ! 12),
          speed = be_nat (take 2 (drop 13 data))\<rparr>"
    using assms
    by (simp add: parse_gps_element_def py_slice_def unpack_s_4 unpack_s_2 unpack_u_def index_def)
  have "longitude g = real_of_int v / 10000000"
    if "- (2 ^ 31) \<le> v" "v < 2 ^ 31" "be_nat (take 4 data) = nat (v mod 2 ^ 32)"
      "parse_gps_element data = Inr g" for v g
  proof -
    define lon where "lon = sint (word_of_nat (be_nat (take 4 data)) :: 32 word)"
    have "lon = v"
      unfolding lon_def that(3) by (rule twos_complement_32 [OF that(1,2)])
    moreover have "longitude g = real_of_int lon / 10000000"
      using that(4) unfolding layout lon_def [symmetric] by auto
    ultimately show ?thesis by simp
  qed
  with layout show ?thesis by blast
qed

theorem gps_element_layout_witness:
  "parse_gps_element
     [0x1F, 0x4D, 0xEA, 0x80, 0xF8, 0x12, 0x34, 0x56, 0xFF, 0x9C, 0x01, 0x0E, 0x07, 0x00, 0x3C]
   = Inr \<lparr>longitude = 52.52, latitude = - 133024682 / 10000000,
          altitude = - 100, angle = 270, satellites = 7, speed = 60\<rparr>"
proof -
  let ?d = "[0x1F, 0x4D, 0xEA, 0x80, 0xF8, 0x12, 0x34, 0x56, 0xFF, 0x9C, 0x01, 0x0E, 0x07,
             0x00, 0x3C] :: bytes"
  have l: "length ?d = 15" by simp
  have h: "- (2 ^ 31) \<le> (525200000 :: int) \<and> (525200000 :: int) < 2 ^ 31
      \<and> be_nat (take 4 ?d) = nat (525200000 mod 2 ^ 32)"
    by (simp add: be_nat_def)
  from gps_element_layout [OF l] h
  obtain g where g: "parse_gps_element ?d = Inr g" "longitude g = real_of_int 525200000 / 10000000"
    by blast
  have e: "parse_gps_element ?d
     = Inr \<lparr>longitude = 525200000 / 10000000, latitude = - 133024682 / 10000000,
          altitude = - 100, angle = 270, satellites = 7, speed = 60\<rparr>"
    by (simp add: parse_gps_element_def py_slice_def unpack_s_def unpack_u_def index_def be_nat_def)
  with g show ?thesis by simp
qed

subsection \<open>C9: a record that fails to decode raises\<close>




subsection \<open>C10: the acknowledgment is the declared count\<close>

text \<open>
  C10. Whenever \<open>process_avl_data\<close> returns a list of records, the length of the list is
  the record count the payload declares (its second byte under \<open>0x08\<close>, its second and
  third bytes, big-endian, under \<open>0x8E\<close>), and the cycle of the loop that reads this
  payload as its frame sends four bytes that decode, big-endian, to that number, and goes
  on.
\<close>

theorem ack_equals_declared_count:
  assumes ok: "process_avl_data data = Inr (Some rs, codec_id)"
  shows "(codec_id = 0x08 \<and> index data 1 = Inr (length rs)
          \<or> codec_id = 0x8E \<and> unpack_u 2 (py_slice data 1 3) = Inr (length rs))
     \<and> (\<forall>c lb rest.
          avail (incoming c) = lb @ data @ rest \<and> length lb = 4 \<and> be_nat lb = length data
          \<longrightarrow> (\<exists>ack. length ack = 4 \<and> be_nat ack = length rs \<and>
                avl_loop c =
                  avl_loop (c\<lparr>incoming := after (length data) (after 4 (incoming c)),
                             sunk := sunk c @ rs, sent := sent c @ [ack]\<rparr>)))"
proof -
  note cnt = process_avl_data_count [OF ok]
  have "length rs < 2 ^ 16"
  proof -
    from cnt consider "index data 1 = Inr (length rs)"
      | "unpack_u 2 (py_slice data 1 3) = Inr (length rs)" by blast
    then show ?thesis
    proof cases
      case 1
      then have "length rs = unat (data ! 1)" by (auto simp: index_def split: if_splits)
      with unat_byte_less [of "data ! 1"] show ?thesis by simp
    next
      case 2
      then obtain a b where "py_slice data 1 3 = [a, b]" "length rs = be_nat [a, b]"
        by (auto simp: unpack_u_def length_Suc_conv numeral_2_eq_2 split: if_splits)
      with unat_byte_less [of a] unat_byte_less [of b] show ?thesis
        by (simp add: be_nat_def)
    qed
  qed
  then have "length rs < 2 ^ 32" by simp
  from pack_I_be_nat [OF this] obtain ack where
    ack: "pack_I (length rs) = Inr ack" "length ack = 4" "be_nat ack = length rs"
    by blast
  have ne: "data \<noteq> []"
    using ok by (auto simp: process_avl_data_def index_def ebind_def)
  have "avl_loop c =
          avl_loop (c\<lparr>incoming := after (length data) (after 4 (incoming c)),
                     sunk := sunk c @ rs, sent := sent c @ [ack]\<rparr>)"
    if "avail (incoming c) = lb @ data @ rest" "length lb = 4" "be_nat lb = length data"
    for c lb rest
    using avl_loop_frame [OF that ne] ok ack by simp
  with cnt ack show ?thesis by blast
qed

text \<open>A frame of one record, after which the peer closes.\<close>

theorem ack_equals_declared_count_witness:
  "process_avl_data (0x08 # 0x01 # sample_record8) = Inr (Some [sample_decoded8], 8)
   \<and> index (0x08 # 0x01 # sample_record8) 1 = Inr 1
   \<and> avl_loop
       \<lparr>incoming = [Chunk ([0x00, 0x00, 0x00, 0x22, 0x08, 0x01] @ sample_record8)],
        sent = [[0x01]], sunk = []\<rparr>
     = (NoDataLength,
        \<lparr>incoming = [], sent = [[0x01], [0x00, 0x00, 0x00, 0x01]], sunk = [sample_decoded8]\<rparr>)"
proof -
  let ?d = "0x08 # 0x01 # sample_record8"
  let ?c = "\<lparr>incoming = [Chunk ([0x00, 0x00, 0x00, 0x22, 0x08, 0x01] @ sample_record8)],
              sent = [[0x01]], sunk = []\<rparr>"
  have len: "length sample_record8 = 32" by (simp add: sample_record8_def)
  have s: "avail (incoming ?c) = [0x00, 0x00, 0x00, 0x22] @ ?d @ []
      \<and> length [0x00, 0x00, 0x00, 0x22 :: byte] = 4
      \<and> be_nat [0x00, 0x00, 0x00, 0x22] = length ?d"
    by (simp add: be_nat_def len)
  from ack_equals_declared_count [OF sample_frame8]
  have i: "index ?d 1 = Inr (length [sample_decoded8])" by simp
  have p: "pack_I (Suc 0) = Inr [0x00, 0x00, 0x00, 0x01]" by (simp add: pack_I_def)
  have l2: "avl_loop ?c =
      avl_loop (?c\<lparr>incoming := after (length ?d) (after 4 (incoming ?c)),
                  sunk := sunk ?c @ [sample_decoded8],
                  sent := sent ?c @ [[0x00, 0x00, 0x00, 0x01]]\<rparr>)"
    using avl_loop_frame [of ?c "[0x00, 0x00, 0x00, 0x22]" ?d "[]"] s sample_frame8 p
    by simp
  show ?thesis
    using sample_frame8 i l2 by (simp add: len avl_loop_closed)
qed

end
